theory Spec2Isabelle
  imports Complex_Main "HOL-Library.AList" "HOL-Library.Multiset"
begin

section \<open>The graph (pkg/graph.go)\<close>

text \<open>
  A Go map is an association list with distinct keys, read with \<open>map_of\<close> and written with
  \<open>AList.update\<close>. Node identifiers are Go \<open>int\<close>s, on which the code only compares: they
  are \<open>int\<close> here. Weights are \<open>float64\<close> in the source; they are idealised as \<open>real\<close>,
  so rounding, infinities and NaN are outside this development.
\<close>

type_synonym adj = "(int \<times> real) list"

record Graph =
  edges :: "(int \<times> adj) list"
  nodes :: "int list"

definition NewGraph :: Graph where
  "NewGraph = \<lparr>edges = [], nodes = []\<rparr>"

text \<open>\<open>g.edges[u]\<close>: a missing key reads as the nil map, which behaves as the empty one.\<close>

definition neighbors :: "Graph \<Rightarrow> int \<Rightarrow> adj" where
  "neighbors g u = (case map_of (edges g) u of None \<Rightarrow> [] | Some m \<Rightarrow> m)"

text \<open>\<open>w, ok := g.edges[u][v]\<close>: the stored weight with its existence flag.\<close>

definition edge :: "Graph \<Rightarrow> int \<Rightarrow> int \<Rightarrow> real option" where
  "edge g u v = map_of (neighbors g u) v"

text \<open>\<open>w := g.edges[u][v]\<close>: a missing edge reads as the zero value.\<close>

definition weight :: "Graph \<Rightarrow> int \<Rightarrow> int \<Rightarrow> real" where
  "weight g u v = (case edge g u v of None \<Rightarrow> 0 | Some w \<Rightarrow> w)"

text \<open>The two node registrations of \<open>AddEdge\<close>: \<open>if g.edges[n] == nil { ... }\<close>.\<close>

definition register :: "int \<Rightarrow> Graph \<Rightarrow> Graph" where
  "register n g =
     (if map_of (edges g) n = None
      then g\<lparr>edges := AList.update n [] (edges g), nodes := nodes g @ [n]\<rparr>
      else g)"

text \<open>\<open>g.edges[a][b] = w\<close>, on a graph where \<open>g.edges[a]\<close> may be nil only if never registered.\<close>

definition setEdge :: "int \<Rightarrow> int \<Rightarrow> real \<Rightarrow> Graph \<Rightarrow> Graph" where
  "setEdge a b w g = g\<lparr>edges := AList.update a (AList.update b w (neighbors g a)) (edges g)\<rparr>"

definition AddEdge :: "Graph \<Rightarrow> int \<Rightarrow> int \<Rightarrow> real \<Rightarrow> Graph" where
  "AddEdge g from to w =
     (let f = max from to;
          t = min from to
      in setEdge t f w (setEdge f t w (register t (register f g))))"

definition NodeCount :: "Graph \<Rightarrow> nat" where
  "NodeCount g = length (nodes g)"

text \<open>A graph as a caller can have it: \<open>NewGraph\<close> followed by a sequence of \<open>AddEdge\<close> calls.\<close>

definition build :: "(int \<times> int \<times> real) list \<Rightarrow> Graph" where
  "build calls = foldl (\<lambda>g (u, v, w). AddEdge g u v w) NewGraph calls"

definition symmetric :: "Graph \<Rightarrow> bool" where
  "symmetric g = (\<forall>u v. edge g u v = edge g v u)"

text \<open>The representation invariant of a graph built through the interface.\<close>

definition graph_inv :: "Graph \<Rightarrow> bool" where
  "graph_inv g \<longleftrightarrow>
     distinct (map fst (edges g)) \<and>
     (\<forall>u m. map_of (edges g) u = Some m \<longrightarrow>
        distinct (map fst m) \<and> fst ` set m \<subseteq> set (nodes g)) \<and>
     distinct (nodes g) \<and>
     set (nodes g) = fst ` set (edges g)"

section \<open>The other version of the graph\<close>

text \<open>
  The repository has a second \<open>Graph\<close>, with exported fields: \<open>Nodes\<close> is a set of
  identifiers and \<open>Edges\<close> maps a node to a slice of \<open>Edge{To, Weight}\<close>. Its \<open>AddEdge\<close>
  appends one entry, at the larger endpoint. \<open>solve.go\<close> reads the fields \<open>edges\<close> and
  \<open>nodes\<close> of the version above and does not compile against this one.
\<close>

record Graph_slices =
  Nodes :: "int set"
  Edges :: "(int \<times> (int \<times> real) list) list"

definition NewGraph_slices :: Graph_slices where
  "NewGraph_slices = \<lparr>Nodes = {}, Edges = []\<rparr>"

definition AddEdge_slices :: "Graph_slices \<Rightarrow> int \<Rightarrow> int \<Rightarrow> real \<Rightarrow> Graph_slices" where
  "AddEdge_slices g from to w =
     (let f = max from to;
          t = min from to;
          old = (case map_of (Edges g) f of None \<Rightarrow> [] | Some es \<Rightarrow> es)
      in g\<lparr>Nodes := insert t (insert f (Nodes g)),
           Edges := AList.update f (old @ [(t, w)]) (Edges g)\<rparr>)"

section \<open>The environment of a solve\<close>

text \<open>
  \<open>math/rand\<close> is a library, not code of the repository. A random source is the sequence
  of raw values it is going to produce: \<open>Intn n\<close> takes the next one modulo \<open>n\<close> (the code
  only calls it with \<open>n > 0\<close>), and a sequence that has run out goes on with zeros. Two
  sources made from the same seed are the same sequence.
\<close>

type_synonym rng = "nat list"

fun Intn :: "rng \<Rightarrow> nat \<Rightarrow> nat \<times> rng" where
  "Intn [] n = (0, [])"
| "Intn (x # xs) n = (x mod n, xs)"

text \<open>
  Go leaves the order in which \<open>range\<close> visits a map unspecified, and the runtime varies
  it from one loop to the next. Each \<open>range\<close> loop therefore takes an \<open>order\<close>: the
  entries whose keys it lists are visited first, in its order, then the other entries as
  they are stored. Every entry is visited exactly once whatever the order says, and every
  visiting order of a map is the result of some \<open>order\<close>.
\<close>

type_synonym order = "int list"

definition ranged :: "order \<Rightarrow> adj \<Rightarrow> adj" where
  "ranged ord m =
     List.map_filter (\<lambda>k. map_option (Pair k) (map_of m k)) (remdups ord)
     @ filter (\<lambda>(k, w). k \<notin> set ord) m"

definition nextOrder :: "order list \<Rightarrow> order" where
  "nextOrder ords = (case ords of [] \<Rightarrow> [] | ord # _ \<Rightarrow> ord)"

text \<open>
  The context of a solve is cancelled by its deadline and stays cancelled. What a worker
  sees of it is the number of times its \<open>select\<close> finds the context still live: a
  \<open>nat\<close>, counted down at every poll; at 0 the poll takes the \<open>ctx.Done()\<close> branch.
\<close>

type_synonym ctx = nat

section \<open>Construction: randomizedNearestNeighbor (pkg/solve.go)\<close>

type_synonym candidate = "int \<times> real"

text \<open>The search for the worst of the retained candidates (\<open>maxDistIdx\<close>).\<close>

definition maxDistIdx :: "candidate list \<Rightarrow> nat" where
  "maxDistIdx topK =
     fold (\<lambda>i m. if snd (topK ! i) > snd (topK ! m) then i else m) [1..<length topK] 0"

text \<open>The body of the loop over the neighbours, with \<open>k = 3\<close>.\<close>

definition offer :: "int set \<Rightarrow> candidate list \<Rightarrow> candidate \<Rightarrow> candidate list" where
  "offer visited topK c =
     (if fst c \<in> visited then topK
      else if length topK < 3 then topK @ [c]
      else let m = maxDistIdx topK
           in if snd c < snd (topK ! m) then topK[m := c] else topK)"

definition topK_of :: "int set \<Rightarrow> adj \<Rightarrow> candidate list" where
  "topK_of visited ns = foldl (offer visited) [] ns"

text \<open>
  The loop \<open>for len(path) < numNodes\<close>. It returns the random source and the iteration
  orders as it leaves them, also on a dead end: the caller goes on with them.
\<close>

function buildPath ::
  "Graph \<Rightarrow> nat \<Rightarrow> int list \<Rightarrow> int set \<Rightarrow> int \<Rightarrow> real \<Rightarrow> rng \<Rightarrow> order list
     \<Rightarrow> (int list \<times> real) option \<times> rng \<times> order list" where
  "buildPath graph numNodes path visited current totalCost rng ords =
     (if length path < numNodes then
        let topK = topK_of visited (ranged (nextOrder ords) (neighbors graph current))
        in if topK = [] then (None, rng, tl ords)
           else let (r, rng') = Intn rng (length topK);
                    choice = topK ! r
                in buildPath graph numNodes (path @ [fst choice]) (insert (fst choice) visited)
                     (fst choice) (totalCost + snd choice) rng' (tl ords)
      else (Some (path, totalCost), rng, ords))"
  by pat_completeness auto
termination
  by (relation "measure (\<lambda>(graph, numNodes, path, visited, current, totalCost, rng, ords).
                  numNodes - length path)") auto

definition randomizedNearestNeighbor ::
  "int \<Rightarrow> nat \<Rightarrow> Graph \<Rightarrow> rng \<Rightarrow> order list
     \<Rightarrow> (int list \<times> real) option \<times> rng \<times> order list" where
  "randomizedNearestNeighbor startNode numNodes graph rng ords =
     (case buildPath graph numNodes [startNode] {startNode} startNode 0 rng ords of
        (None, rng', ords') \<Rightarrow> (None, rng', ords')
      | (Some (path, totalCost), rng', ords') \<Rightarrow>
          let first = path ! 0;
              last = path ! (length path - 1)
          in (case edge graph last first of
                Some w \<Rightarrow> (Some (path, totalCost + w), rng', ords')
              | None \<Rightarrow> (None, rng', ords')))"

section \<open>Local search: twoOpt (pkg/solve.go)\<close>

function reverse :: "int list \<Rightarrow> nat \<Rightarrow> nat \<Rightarrow> int list" where
  "reverse path i j =
     (if i < j then reverse (path[i := path ! j, j := path ! i]) (i + 1) (j - 1) else path)"
  by pat_completeness auto
termination
  by (relation "measure (\<lambda>(path, i, j). j - i)") auto

text \<open>The state of a sweep: the tour, the running cost and the flag \<open>improved\<close>.\<close>

type_synonym sweep_state = "int list \<times> real \<times> bool"

text \<open>
  The body of the inner loop at the position pair \<open>(i, j)\<close>. The threshold \<open>-1e-9\<close> is the
  real number \<open>-1/10^9\<close>.
\<close>

definition move :: "Graph \<Rightarrow> nat \<Rightarrow> nat \<Rightarrow> nat \<Rightarrow> sweep_state \<Rightarrow> sweep_state" where
  "move graph sz i j st =
     (case st of (path, currentCost, improved) \<Rightarrow>
        if i = 0 \<and> j = sz - 1 then st
        else
          let u1 = path ! i;
              v1 = path ! ((i + 1) mod sz);
              u2 = path ! j;
              v2 = path ! ((j + 1) mod sz);
              w1 = weight graph u1 v1;
              w2 = weight graph u2 v2
          in (case (edge graph u1 u2, edge graph v1 v2) of
                (Some wNew1, Some wNew2) \<Rightarrow>
                  let delta = (wNew1 + wNew2) - (w1 + w2)
                  in if delta < - (1 / 1000000000)
                     then (reverse path (i + 1) j, currentCost + delta, True)
                     else st
              | _ \<Rightarrow> st))"

text \<open>One sweep: \<open>for i := range size { for j := i + 2; j < size; j++ { ... } }\<close>.\<close>

definition sweep :: "Graph \<Rightarrow> nat \<Rightarrow> sweep_state \<Rightarrow> sweep_state" where
  "sweep graph sz st =
     fold (\<lambda>i. fold (move graph sz i) [i + 2..<sz]) [0..<sz] st"

datatype exit = Converged | Cancelled

text \<open>
  The loop \<open>for improved\<close>: a poll of the context, then a sweep started with
  \<open>improved = false\<close>. Besides the tour and its cost the model returns what is left of
  the context and which of the two \<open>return\<close>s was taken.
\<close>

fun sweeps :: "Graph \<Rightarrow> nat \<Rightarrow> ctx \<Rightarrow> int list \<Rightarrow> real \<Rightarrow> int list \<times> real \<times> ctx \<times> exit" where
  "sweeps graph sz 0 path currentCost = (path, currentCost, 0, Cancelled)"
| "sweeps graph sz (Suc c) path currentCost =
     (case sweep graph sz (path, currentCost, False) of
        (path', cost', improved) \<Rightarrow>
          if improved then sweeps graph sz c path' cost' else (path', cost', c, Converged))"

definition twoOpt :: "int list \<Rightarrow> real \<Rightarrow> Graph \<Rightarrow> ctx \<Rightarrow> int list \<times> real \<times> ctx \<times> exit" where
  "twoOpt path currentCost graph c = sweeps graph (length path) c path currentCost"

section \<open>The orchestrator: SolveTSP (pkg/solve.go)\<close>

text \<open>Lines 53 to 58: one construction, refined by local search when it succeeded.\<close>

definition pipeline ::
  "int \<Rightarrow> nat \<Rightarrow> Graph \<Rightarrow> rng \<Rightarrow> order list \<Rightarrow> ctx
     \<Rightarrow> (int list \<times> real) option \<times> rng \<times> order list \<times> ctx" where
  "pipeline startNode nodeCount graph rng ords c =
     (case randomizedNearestNeighbor startNode nodeCount graph rng ords of
        (None, rng', ords') \<Rightarrow> (None, rng', ords', c)
      | (Some (path, cost), rng', ords') \<Rightarrow>
          (case twoOpt path cost graph c of
             (path', cost', c', x) \<Rightarrow> (Some (path', cost'), rng', ords', c')))"

lemma sweeps_ctx_le: "sweeps graph sz c path cost = (path', cost', c', x) \<Longrightarrow> c' \<le> c"
proof (induction c arbitrary: path cost)
  case 0
  then show ?case by simp
next
  case (Suc c)
  obtain p1 c1 i1 where sw: "sweep graph sz (path, cost, False) = (p1, c1, i1)"
    by (cases "sweep graph sz (path, cost, False)")
  show ?case
  proof (cases i1)
    case True
    with Suc.prems sw have "sweeps graph sz c p1 c1 = (path', cost', c', x)" by simp
    then have "c' \<le> c" by (rule Suc.IH)
    then show ?thesis by simp
  next
    case False
    with Suc.prems sw show ?thesis by simp
  qed
qed

lemma pipeline_ctx_le:
  "pipeline startNode nodeCount graph rng ords c = (res, rng', ords', c') \<Longrightarrow> c' \<le> c"
  by (auto simp: pipeline_def twoOpt_def split: prod.splits option.splits dest: sweeps_ctx_le)

text \<open>
  The loop of one worker. The result is the list of the attempts it completed, each in the
  order it reached the critical section; a failed construction leaves nothing.
\<close>

function worker :: "Graph \<Rightarrow> nat \<Rightarrow> ctx \<Rightarrow> rng \<Rightarrow> order list \<Rightarrow> (int list \<times> real) list" where
  "worker graph nodeCount 0 rng ords = []"
| "worker graph nodeCount (Suc c) rng ords =
     (case Intn rng nodeCount of
        (r, rng1) \<Rightarrow>
          (case pipeline (nodes graph ! r) nodeCount graph rng1 ords c of
             (None, rng2, ords2, c2) \<Rightarrow> worker graph nodeCount c2 rng2 ords2
           | (Some a, rng2, ords2, c2) \<Rightarrow> a # worker graph nodeCount c2 rng2 ords2))"
  by pat_completeness auto
termination
  by (relation "measure (\<lambda>(graph, nodeCount, c, rng, ords). c)")
     (auto dest!: pipeline_ctx_le [OF sym])

text \<open>The shared best state and its update inside the critical section.\<close>

type_synonym best = "int list option \<times> real \<times> nat"

definition MaxFloat64 :: real where
  "MaxFloat64 = 2 ^ 1024 - 2 ^ 971"

fun report :: "best \<Rightarrow> int list \<times> real \<Rightarrow> best" where
  "report (bestPath, bestCost, totalCycles) (path, cost) =
     (if cost < bestCost then (Some path, cost, totalCycles + 1)
      else (bestPath, bestCost, totalCycles + 1))"

text \<open>
  The mutex serialises the critical sections. \<open>interleave sched logs\<close> is the order in
  which they run when the workers take the lock in the order \<open>sched\<close> (a worker named
  there with nothing left to report is passed over; what \<open>sched\<close> leaves out comes last).
\<close>

fun interleave :: "nat list \<Rightarrow> 'a list list \<Rightarrow> 'a list" where
  "interleave [] logs = concat logs"
| "interleave (w # sched) logs =
     (if w < length logs
      then (case logs ! w of
              [] \<Rightarrow> interleave sched logs
            | a # rest \<Rightarrow> a # interleave sched (logs[w := rest]))
      else interleave sched logs)"

text \<open>
  What a solve takes from outside: the number of CPUs and, for each worker, its random
  source (seeded from the clock), the iteration orders of its \<open>range\<close> loops and its view
  of the context; and the order of the critical sections.
\<close>

record Env =
  numCPU :: int
  source :: "nat \<Rightarrow> rng"
  orders :: "nat \<Rightarrow> order list"
  polls :: "nat \<Rightarrow> ctx"
  sched :: "nat list"

text \<open>\<open>time.Duration(maxSeconds) * time.Second\<close> is a product of 64-bit integers.\<close>

definition wrap64 :: "int \<Rightarrow> int" where
  "wrap64 x = (x + 2 ^ 63) mod 2 ^ 64 - 2 ^ 63"

text \<open>A timeout that is not positive gives a context that is cancelled from the start.\<close>

definition budget :: "int \<Rightarrow> Env \<Rightarrow> nat \<Rightarrow> ctx" where
  "budget maxSeconds env i =
     (if 0 < wrap64 (maxSeconds * 1000000000) then polls env i else 0)"

text \<open>
  Lines 38 to 77: the workers that are started, and for each of them the attempts it
  completes before it sees the context cancelled. On a graph with fewer than two nodes
  \<open>SolveTSP\<close> has returned before: no worker is started.
\<close>

definition completed :: "Graph \<Rightarrow> int \<Rightarrow> int \<Rightarrow> Env \<Rightarrow> (int list \<times> real) list list" where
  "completed graph maxCPU maxSeconds env =
     (let nodeCount = NodeCount graph
      in if nodeCount = 0 \<or> nodeCount = 1 then []
         else
           let numWorkers = min (numCPU env) maxCPU
           in map (\<lambda>i. worker graph nodeCount (budget maxSeconds env i)
                          (source env i) (orders env i))
                [0..<nat numWorkers])"

definition SolveTSP :: "Graph \<Rightarrow> int \<Rightarrow> int \<Rightarrow> Env \<Rightarrow> int list \<times> real \<times> nat" where
  "SolveTSP graph maxCPU maxSeconds env =
     (let nodeCount = NodeCount graph
      in if nodeCount = 0 then ([], 0, 0)
         else if nodeCount = 1 then (nodes graph, 0, 1)
         else
           (case foldl report (None, MaxFloat64, 0)
                   (interleave (sched env) (completed graph maxCPU maxSeconds env)) of
              (None, bestCost, totalCycles) \<Rightarrow> ([], 0, totalCycles)
            | (Some bestPath, bestCost, totalCycles) \<Rightarrow> (bestPath, bestCost, totalCycles)))"

text \<open>
  The cost of a tour read as a cycle: the stored weights along consecutive positions and
  of the closing edge from the last position back to the first.
\<close>

definition tourCost :: "Graph \<Rightarrow> int list \<Rightarrow> real" where
  "tourCost g p = (\<Sum>k<length p. weight g (p ! k) (p ! ((k + 1) mod length p)))"

text \<open>The part of it that the construction loop accumulates: the cost of the open path.\<close>

definition pathCost :: "Graph \<Rightarrow> int list \<Rightarrow> real" where
  "pathCost g p = (\<Sum>k<length p - 1. weight g (p ! k) (p ! (k + 1)))"

text \<open>
  An improving 2-opt move at the position pair \<open>(i, j)\<close> of a tour, in the words of the
  specification: both replacement edges are stored and the change of cost
  \<open>(weight(u1,u2) + weight(v1,v2)) - (weight(u1,v1) + weight(u2,v2))\<close> is below \<open>-1e-9\<close>.
\<close>

definition improving :: "Graph \<Rightarrow> int list \<Rightarrow> nat \<Rightarrow> nat \<Rightarrow> bool" where
  "improving g p i j =
     (let n = length p;
          u1 = p ! i;
          v1 = p ! ((i + 1) mod n);
          u2 = p ! j;
          v2 = p ! ((j + 1) mod n)
      in edge g u1 u2 \<noteq> None \<and> edge g v1 v2 \<noteq> None \<and>
         (weight g u1 u2 + weight g v1 v2) - (weight g u1 v1 + weight g u2 v2)
           < - (1 / 1000000000))"

section \<open>Concrete inputs\<close>

text \<open>
  A square 1-2-3-4 with sides of weight 1 and diagonals of weight 5, and an environment
  with four CPUs in which every worker sees the context live six times.
\<close>

definition k4 :: Graph where
  "k4 = build [(1, 2, 1), (2, 3, 1), (3, 4, 1), (4, 1, 1), (1, 3, 5), (2, 4, 5)]"

text \<open>A graph on five nodes with eight edges.\<close>

definition g5 :: Graph where
  "g5 = build [(1, 2, 3), (1, 3, 2), (1, 4, 1), (1, 5, 7), (2, 3, 2), (2, 5, 9), (3, 4, 9), (4, 5, 3)]"

text \<open>Two nodes that are joined to themselves only.\<close>

definition loops2 :: Graph where
  "loops2 = build [(1, 1, 5), (2, 2, 1)]"

definition env0 :: Env where
  "env0 = \<lparr>numCPU = 4, source = (\<lambda>i. [i, 2, 1, 0, 1]), orders = (\<lambda>i. []),
           polls = (\<lambda>i. 6), sched = [1, 0, 1]\<rparr>"

section \<open>Facts about the graph\<close>

lemma edge_register: "edge (register n g) u v = edge g u v"
  by (auto simp: edge_def neighbors_def register_def update_conv' split: option.splits)

lemma edge_setEdge:
  "edge (setEdge a b w g) u v = (if u = a \<and> v = b then Some w else edge g u v)"
  by (auto simp: edge_def neighbors_def setEdge_def update_conv' split: option.splits)

lemma edge_AddEdge:
  "edge (AddEdge g a b w) u v =
     (if (u = a \<and> v = b) \<or> (u = b \<and> v = a) then Some w else edge g u v)"
proof -
  have "AddEdge g a b w = setEdge a b w (setEdge b a w (register a (register b g)))
      \<or> AddEdge g a b w = setEdge b a w (setEdge a b w (register b (register a g)))"
    by (cases "a \<le> b") (simp_all add: AddEdge_def)
  then show ?thesis
    unfolding edge_setEdge edge_register
    by (elim disjE; simp only: edge_setEdge edge_register; presburger)
qed

lemma edge_NewGraph: "edge NewGraph u v = None"
  by (simp add: edge_def neighbors_def NewGraph_def)

lemma build_snoc: "build (calls @ [(u, v, w)]) = AddEdge (build calls) u v w"
  by (simp add: build_def)

lemma symmetric_AddEdge: "symmetric g \<Longrightarrow> symmetric (AddEdge g a b w)"
  by (auto simp: symmetric_def edge_AddEdge)

lemma symmetric_build: "symmetric (build calls)"
proof (induction calls rule: rev_induct)
  case Nil
  show ?case by (simp add: build_def symmetric_def edge_NewGraph)
next
  case (snoc c calls)
  obtain u v w where c: "c = (u, v, w)" by (cases c)
  show ?case unfolding c build_snoc by (rule symmetric_AddEdge [OF snoc])
qed

lemma edge_build:
  "edge (build calls) u v \<noteq> None \<longleftrightarrow>
     (\<exists>(a, b, w) \<in> set calls. (u = a \<and> v = b) \<or> (u = b \<and> v = a))"
proof (induction calls rule: rev_induct)
  case Nil
  show ?case by (simp add: build_def edge_NewGraph)
next
  case (snoc c calls)
  obtain a b w where c: "c = (a, b, w)" by (cases c)
  show ?case unfolding c build_snoc using snoc by (auto simp: edge_AddEdge)
qed

text \<open>The other version stores an edge in one direction only.\<close>

lemma AddEdge_slices_one_way:
  "map_of (Edges (AddEdge_slices NewGraph_slices 4 2 7)) 4 = Some [(2, 7)] \<and>
   map_of (Edges (AddEdge_slices NewGraph_slices 4 2 7)) 2 = None"
  by (simp add: AddEdge_slices_def NewGraph_slices_def)

subsection \<open>The representation invariant\<close>

lemma inv_NewGraph: "graph_inv NewGraph"
  by (simp add: graph_inv_def NewGraph_def)

lemma nodes_keys: "graph_inv g \<Longrightarrow> n \<in> set (nodes g) \<longleftrightarrow> map_of (edges g) n \<noteq> None"
  by (simp add: graph_inv_def map_of_eq_None_iff)

lemma inv_register: "graph_inv g \<Longrightarrow> graph_inv (register n g)"
proof (cases "map_of (edges g) n = None")
  case False
  assume "graph_inv g"
  with False show ?thesis by (auto simp: register_def)
next
  case True
  assume g: "graph_inv g"
  from True g have n: "n \<notin> set (nodes g)" by (simp add: nodes_keys)
  have r: "register n g = g\<lparr>edges := AList.update n [] (edges g), nodes := nodes g @ [n]\<rparr>"
    using True by (simp add: register_def)
  have 1: "distinct (map fst (edges (register n g)))"
    using g by (simp add: r graph_inv_def distinct_update)
  have 2: "distinct (map fst m) \<and> fst ` set m \<subseteq> set (nodes (register n g))"
    if "map_of (edges (register n g)) u = Some m" for u m
  proof (cases "u = n")
    case True
    with that show ?thesis by (simp add: r update_conv')
  next
    case False
    with that have "map_of (edges g) u = Some m" by (simp add: r update_conv')
    with g have "distinct (map fst m) \<and> fst ` set m \<subseteq> set (nodes g)"
      unfolding graph_inv_def by blast
    then show ?thesis by (auto simp: r)
  qed
  have 3: "distinct (nodes (register n g))"
    using g n by (simp add: r graph_inv_def)
  have 4: "set (nodes (register n g)) = fst ` set (edges (register n g))"
    using g by (auto simp: r graph_inv_def dom_update)
  from 1 2 3 4 show ?thesis unfolding graph_inv_def by blast
qed

lemma nodes_register: "graph_inv g \<Longrightarrow> set (nodes (register n g)) = insert n (set (nodes g))"
  by (auto simp: register_def nodes_keys)

lemma nodes_setEdge: "nodes (setEdge a b w g) = nodes g"
  by (simp add: setEdge_def)

lemma inv_setEdge:
  assumes g: "graph_inv g" and a: "a \<in> set (nodes g)" and b: "b \<in> set (nodes g)"
  shows "graph_inv (setEdge a b w g)"
proof -
  let ?m = "AList.update b w (neighbors g a)"
  have e: "edges (setEdge a b w g) = AList.update a ?m (edges g)"
    and n: "nodes (setEdge a b w g) = nodes g"
    by (simp_all add: setEdge_def)
  from a g obtain m0 where m0: "map_of (edges g) a = Some m0"
    by (auto simp: nodes_keys)
  then have nb: "neighbors g a = m0" by (simp add: neighbors_def)
  from g m0 have m0_ok: "distinct (map fst m0)" "fst ` set m0 \<subseteq> set (nodes g)"
    unfolding graph_inv_def by blast+
  have 1: "distinct (map fst (edges (setEdge a b w g)))"
    using g by (simp add: e graph_inv_def distinct_update)
  have 2: "distinct (map fst m) \<and> fst ` set m \<subseteq> set (nodes (setEdge a b w g))"
    if "map_of (edges (setEdge a b w g)) u = Some m" for u m
  proof (cases "u = a")
    case True
    with that have "m = AList.update b w m0" by (simp add: e nb update_conv')
    with m0_ok b show ?thesis by (auto simp: n distinct_update dom_update)
  next
    case False
    with that have "map_of (edges g) u = Some m" by (simp add: e update_conv')
    with g show ?thesis unfolding graph_inv_def n by blast
  qed
  have 3: "distinct (nodes (setEdge a b w g))"
    using g by (simp add: n graph_inv_def)
  have "a \<in> fst ` set (edges g)" using g a by (simp add: graph_inv_def)
  then have 4: "set (nodes (setEdge a b w g)) = fst ` set (edges (setEdge a b w g))"
    using g by (auto simp: n e graph_inv_def dom_update)
  from 1 2 3 4 show ?thesis unfolding graph_inv_def by blast
qed

lemma inv_AddEdge:
  assumes "graph_inv g"
  shows "graph_inv (AddEdge g a b w)"
proof -
  define f t where "f = max a b" and "t = min a b"
  define g2 where "g2 = register t (register f g)"
  have g2: "graph_inv g2" "f \<in> set (nodes g2)" "t \<in> set (nodes g2)"
    using assms by (simp_all add: g2_def inv_register nodes_register)
  then have "graph_inv (setEdge f t w g2)" by (simp add: inv_setEdge)
  with g2 have "graph_inv (setEdge t f w (setEdge f t w g2))"
    by (simp add: inv_setEdge nodes_setEdge)
  then show ?thesis by (simp add: AddEdge_def Let_def f_def t_def g2_def)
qed

lemma inv_build: "graph_inv (build calls)"
proof (induction calls rule: rev_induct)
  case Nil
  show ?case by (simp add: build_def inv_NewGraph)
next
  case (snoc c calls)
  obtain u v w where c: "c = (u, v, w)" by (cases c)
  show ?case unfolding c build_snoc by (rule inv_AddEdge [OF snoc])
qed

lemma nodes_AddEdge:
  assumes "graph_inv g"
  shows "set (nodes (AddEdge g a b w)) = insert a (insert b (set (nodes g)))"
proof -
  have "set (nodes (AddEdge g a b w))
      = insert (min a b) (insert (max a b) (set (nodes g)))"
    using assms
    by (simp add: AddEdge_def Let_def nodes_setEdge nodes_register inv_register)
  then show ?thesis by (auto simp: max_def min_def split: if_splits)
qed

lemma nodes_build:
  "(a, b, w) \<in> set calls \<Longrightarrow> a \<in> set (nodes (build calls)) \<and> b \<in> set (nodes (build calls))"
proof (induction calls rule: rev_induct)
  case Nil
  then show ?case by simp
next
  case (snoc c calls)
  obtain u v x where c: "c = (u, v, x)" by (cases c)
  have n: "set (nodes (build (calls @ [c]))) = insert u (insert v (set (nodes (build calls))))"
    unfolding c build_snoc by (rule nodes_AddEdge [OF inv_build])
  from snoc.prems have "(a, b, w) = c \<or> (a, b, w) \<in> set calls" by auto
  then show ?case
  proof
    assume "(a, b, w) = c"
    with c n show ?thesis by auto
  next
    assume "(a, b, w) \<in> set calls"
    from snoc.IH [OF this] n show ?thesis by auto
  qed
qed

lemma one_node_self_loop:
  assumes "nodes (build calls) = [u]"
  shows "edge (build calls) u u \<noteq> None"
proof -
  from assms have "calls \<noteq> []" by (auto simp: build_def NewGraph_def)
  then obtain a b w where m: "(a, b, w) \<in> set calls"
    by (cases calls) auto
  from nodes_build [OF m] assms have "a = u" "b = u" by simp_all
  with m have "\<exists>(a, b, w) \<in> set calls. (u = a \<and> u = b) \<or> (u = b \<and> u = a)" by blast
  then show ?thesis by (simp only: edge_build)
qed

section \<open>Facts about construction\<close>

declare buildPath.simps [simp del]

lemma offer_set:
  "set (offer v topK c) \<subseteq> set topK \<union> (if fst c \<in> v then {} else {c})"
proof -
  have "set (topK[m := c]) \<subseteq> insert c (set topK)" for m
    by (rule set_update_subset_insert)
  then show ?thesis by (auto simp: offer_def Let_def)
qed

lemma foldl_offer_set:
  "set (foldl (offer v) acc ns) \<subseteq> set acc \<union> {c \<in> set ns. fst c \<notin> v}"
proof (induction ns arbitrary: acc)
  case Nil
  show ?case by simp
next
  case (Cons n ns)
  have "set (foldl (offer v) (offer v acc n) ns) \<subseteq> set (offer v acc n) \<union> {c \<in> set ns. fst c \<notin> v}"
    by (rule Cons.IH)
  with offer_set [of v acc n] show ?case by (auto split: if_splits)
qed

lemma ranged_set: "set (ranged ord m) \<subseteq> set m"
  by (auto simp: ranged_def List.map_filter_def dest: map_of_SomeD)

lemma topK_of_member:
  assumes "c \<in> set (topK_of visited (ranged ord m))"
  shows "c \<in> set m \<and> fst c \<notin> visited"
  using assms foldl_offer_set [of visited "[]" "ranged ord m"] ranged_set [of ord m]
  by (auto simp: topK_of_def)

lemma topK_of_visited:
  assumes "\<forall>c \<in> set m. fst c \<in> visited"
  shows "topK_of visited (ranged ord m) = []"
proof (rule ccontr)
  assume "topK_of visited (ranged ord m) \<noteq> []"
  then obtain c where "c \<in> set (topK_of visited (ranged ord m))"
    by (cases "topK_of visited (ranged ord m)") auto
  from topK_of_member [OF this] assms show False by blast
qed

lemma Intn_less: "0 < n \<Longrightarrow> fst (Intn rng n) < n"
  by (cases rng) simp_all

lemma neighbors_edge:
  assumes "graph_inv g" and "(v, w) \<in> set (neighbors g u)"
  shows "edge g u v = Some w \<and> v \<in> set (nodes g)"
proof (cases "map_of (edges g) u")
  case None
  with assms(2) show ?thesis by (simp add: neighbors_def)
next
  case (Some m)
  then have m: "neighbors g u = m" by (simp add: neighbors_def)
  from assms(1) Some have "distinct (map fst m)" "fst ` set m \<subseteq> set (nodes g)"
    unfolding graph_inv_def by blast+
  with assms(2) m show ?thesis by (force simp: edge_def)
qed

lemma pathCost_snoc:
  assumes "path \<noteq> []"
  shows "pathCost g (path @ [x]) = pathCost g path + weight g (last path) x"
proof -
  obtain m where m: "length path = Suc m" using assms by (cases path) auto
  have l: "last path = path ! m" using assms m by (simp add: last_conv_nth)
  have "pathCost g (path @ [x]) = (\<Sum>k<Suc m. weight g ((path @ [x]) ! k) ((path @ [x]) ! (k + 1)))"
    by (simp add: pathCost_def m)
  also have "\<dots> = (\<Sum>k<m. weight g ((path @ [x]) ! k) ((path @ [x]) ! (k + 1)))
                + weight g ((path @ [x]) ! m) ((path @ [x]) ! (m + 1))"
    by simp
  also have "(\<Sum>k<m. weight g ((path @ [x]) ! k) ((path @ [x]) ! (k + 1)))
           = (\<Sum>k<m. weight g (path ! k) (path ! (k + 1)))"
    by (rule sum.cong) (simp_all add: nth_append m)
  also have "weight g ((path @ [x]) ! m) ((path @ [x]) ! (m + 1)) = weight g (last path) x"
    by (simp add: nth_append m l)
  finally show ?thesis by (simp add: pathCost_def m)
qed

lemma tourCost_pathCost:
  assumes "p \<noteq> []"
  shows "tourCost g p = pathCost g p + weight g (p ! (length p - 1)) (p ! 0)"
proof -
  obtain m where m: "length p = Suc m" using assms by (cases p) auto
  have "tourCost g p = (\<Sum>k<m. weight g (p ! k) (p ! ((k + 1) mod Suc m)))
                + weight g (p ! m) (p ! ((m + 1) mod Suc m))"
    by (simp add: tourCost_def m)
  also have "(\<Sum>k<m. weight g (p ! k) (p ! ((k + 1) mod Suc m)))
           = (\<Sum>k<m. weight g (p ! k) (p ! (k + 1)))"
    by (rule sum.cong) simp_all
  finally show ?thesis by (simp add: pathCost_def m)
qed

lemma buildPath_result:
  "graph_inv g \<Longrightarrow>
   buildPath g n path visited current tc rng ords = (Some (p, c), rng', ords') \<Longrightarrow>
   path \<noteq> [] \<Longrightarrow> visited = set path \<Longrightarrow> distinct path \<Longrightarrow> set path \<subseteq> set (nodes g) \<Longrightarrow>
   current = last path \<Longrightarrow> tc = pathCost g path \<Longrightarrow> length path \<le> n \<Longrightarrow>
   distinct p \<and> set p \<subseteq> set (nodes g) \<and> length p = n \<and> c = pathCost g p \<and> p \<noteq> []"
proof (induction g n path visited current tc rng ords rule: buildPath.induct)
  case (1 graph numNodes path visited current totalCost rng ords)
  show ?case
  proof (cases "length path < numNodes")
    case False
    with "1.prems" show ?thesis by (auto simp: buildPath.simps)
  next
    case True
    define topK where "topK = topK_of visited (ranged (nextOrder ords) (neighbors graph current))"
    obtain r rng1 where I: "Intn rng (length topK) = (r, rng1)"
      by (cases "Intn rng (length topK)")
    define choice where "choice = topK ! r"
    from "1.prems"(2) True have ne: "topK \<noteq> []"
      by (auto simp: buildPath.simps [of graph numNodes path] topK_def Let_def split: if_splits)
    with "1.prems"(2) True I
    have rec: "buildPath graph numNodes (path @ [fst choice]) (insert (fst choice) visited)
                 (fst choice) (totalCost + snd choice) rng1 (tl ords) = (Some (p, c), rng', ords')"
      by (simp add: buildPath.simps [of graph numNodes path] topK_def [symmetric] choice_def Let_def)
    have "r < length topK" using Intn_less [of "length topK" rng] ne I by simp
    then have "choice \<in> set topK" by (simp add: choice_def)
    then have mem: "choice \<in> set (neighbors graph current)" "fst choice \<notin> visited"
      using topK_of_member [of choice visited "nextOrder ords" "neighbors graph current"]
      by (simp_all add: topK_def)
    from mem(1) have "(fst choice, snd choice) \<in> set (neighbors graph current)" by simp
    from neighbors_edge [OF "1.prems"(1) this]
    have e: "edge graph current (fst choice) = Some (snd choice)"
      and n: "fst choice \<in> set (nodes graph)" by blast+
    from e have w: "weight graph (last path) (fst choice) = snd choice"
      using "1.prems"(7) by (simp add: weight_def)
    show ?thesis
    proof (rule "1.IH" [OF True topK_def ne refl I [symmetric] choice_def "1.prems"(1) rec])
      show "path @ [fst choice] \<noteq> []" by simp
      show "insert (fst choice) visited = set (path @ [fst choice])"
        using "1.prems"(4) by simp
      show "distinct (path @ [fst choice])"
        using "1.prems"(4,5) mem(2) by simp
      show "set (path @ [fst choice]) \<subseteq> set (nodes graph)"
        using "1.prems"(6) n by simp
      show "fst choice = last (path @ [fst choice])" by simp
      show "totalCost + snd choice = pathCost graph (path @ [fst choice])"
        using "1.prems"(3,8) w by (simp add: pathCost_snoc)
      show "length (path @ [fst choice]) \<le> numNodes" using True by simp
    qed
  qed
qed

lemma rnn_result:
  assumes g: "graph_inv g" and s: "s \<in> set (nodes g)" and n: "1 \<le> n"
    and r: "randomizedNearestNeighbor s n g rng ords = (Some (p, c), rng', ords')"
  shows "distinct p \<and> set p \<subseteq> set (nodes g) \<and> length p = n \<and> c = tourCost g p"
proof -
  from r obtain c0 where
    ex: "buildPath g n [s] {s} s 0 rng ords = (Some (p, c0), rng', ords')"
    and cl: "edge g (p ! (length p - 1)) (p ! 0) = Some (c - c0)"
    by (auto simp: randomizedNearestNeighbor_def Let_def split: prod.splits option.splits)
  have "distinct p \<and> set p \<subseteq> set (nodes g) \<and> length p = n \<and> c0 = pathCost g p \<and> p \<noteq> []"
    by (rule buildPath_result [OF g ex]) (use s n in \<open>simp_all add: pathCost_def\<close>)
  moreover from cl have "weight g (p ! (length p - 1)) (p ! 0) = c - c0"
    by (simp add: weight_def)
  ultimately show ?thesis by (simp add: tourCost_pathCost)
qed

lemma perm_of_nodes:
  assumes "graph_inv g" "distinct p" "set p \<subseteq> set (nodes g)" "length p = length (nodes g)"
  shows "set p = set (nodes g)"
proof -
  from assms(1) have "distinct (nodes g)" by (simp add: graph_inv_def)
  then have "card (set (nodes g)) = length p" using assms(4) by (simp add: distinct_card)
  also have "\<dots> = card (set p)" using assms(2) by (simp add: distinct_card)
  finally show ?thesis using assms(3) by (simp add: card_subset_eq)
qed

section \<open>Facts about local search\<close>

declare reverse.simps [simp del]

lemma length_reverse: "length (reverse p i j) = length p"
proof (induction p i j rule: reverse.induct)
  case (1 path i j)
  show ?case
  proof (cases "i < j")
    case True
    with 1 show ?thesis by (subst reverse.simps) simp
  next
    case False
    then show ?thesis by (subst reverse.simps) simp
  qed
qed

lemma mset_reverse: "j < length p \<Longrightarrow> mset (reverse p i j) = mset p"
proof (induction p i j rule: reverse.induct)
  case (1 path i j)
  show ?case
  proof (cases "i < j")
    case True
    with 1 have "mset (reverse (path[i := path ! j, j := path ! i]) (i + 1) (j - 1))
        = mset (path[i := path ! j, j := path ! i])" by simp
    also have "\<dots> = mset path" using True "1.prems" by (simp add: mset_swap)
    finally show ?thesis using True by (subst reverse.simps) simp
  next
    case False
    then show ?thesis by (subst reverse.simps) simp
  qed
qed

lemma nth_reverse:
  "j < length p \<Longrightarrow> k < length p \<Longrightarrow>
     reverse p i j ! k = (if i \<le> k \<and> k \<le> j then p ! (i + j - k) else p ! k)"
proof (induction p i j arbitrary: k rule: reverse.induct)
  case (1 path i j)
  show ?case
  proof (cases "i < j")
    case True
    let ?q = "path[i := path ! j, j := path ! i]"
    have "reverse path i j ! k = reverse ?q (i + 1) (j - 1) ! k"
      using True by (subst reverse.simps) simp
    also have "\<dots> = (if i + 1 \<le> k \<and> k \<le> j - 1 then ?q ! (i + 1 + (j - 1) - k) else ?q ! k)"
      using True "1.prems" by (intro "1.IH") simp_all
    also have "\<dots> = (if i \<le> k \<and> k \<le> j then path ! (i + j - k) else path ! k)"
      using True "1.prems" by (auto simp: nth_list_update)
    finally show ?thesis .
  next
    case False
    with "1.prems" show ?thesis
      by (subst reverse.simps) (auto dest: le_antisym)
  qed
qed








lemma move_unimproved:
  assumes "move graph (length p) i j (p, k, b) = (p', k', False)"
  shows "b = False \<and> p' = p \<and> k' = k \<and>
         ((i = 0 \<and> j = length p - 1) \<or> \<not> improving graph p i j)"
  using assms
  by (auto simp: move_def improving_def weight_def Let_def split: if_splits option.splits)

lemma move_keeps_True: "snd (snd (move graph sz i j (p, k, True)))"
  by (auto simp: move_def Let_def split: option.splits)

lemma fold_move_unimproved:
  assumes "fold (move graph (length p) i) js (p, k, b) = (p', k', False)"
  shows "b = False \<and> p' = p \<and> k' = k \<and>
         (\<forall>j \<in> set js. (i = 0 \<and> j = length p - 1) \<or> \<not> improving graph p i j)"
  using assms
proof (induction js arbitrary: p k b)
  case Nil
  then show ?case by simp
next
  case (Cons j js)
  obtain p1 k1 b1 where m: "move graph (length p) i j (p, k, b) = (p1, k1, b1)"
    by (cases "move graph (length p) i j (p, k, b)")
  have len: "length p1 = length p"
    using m by (auto simp: move_def Let_def length_reverse split: if_splits option.splits)
  from Cons.prems m have f: "fold (move graph (length p1) i) js (p1, k1, b1) = (p', k', False)"
    by (simp add: len)
  from Cons.IH [OF f] have 1: "b1 = False" "p' = p1" "k' = k1"
    and 2: "\<forall>j \<in> set js. (i = 0 \<and> j = length p1 - 1) \<or> \<not> improving graph p1 i j"
    by blast+
  from m 1 have "move graph (length p) i j (p, k, b) = (p1, k1, False)" by simp
  from move_unimproved [OF this] 1 2 len show ?case by auto
qed

lemma fold_rows_unimproved:
  assumes "fold (\<lambda>i. fold (move graph (length p) i) (js i)) is (p, k, b) = (p', k', False)"
  shows "b = False \<and> p' = p \<and> k' = k \<and>
         (\<forall>i \<in> set is. \<forall>j \<in> set (js i). (i = 0 \<and> j = length p - 1) \<or> \<not> improving graph p i j)"
  using assms
proof (induction "is" arbitrary: p k b)
  case Nil
  then show ?case by simp
next
  case (Cons i "is")
  obtain p1 k1 b1 where m: "fold (move graph (length p) i) (js i) (p, k, b) = (p1, k1, b1)"
    by (cases "fold (move graph (length p) i) (js i) (p, k, b)")
  from Cons.prems m
  have f0: "fold (\<lambda>i. fold (move graph (length p) i) (js i)) is (p1, k1, b1) = (p', k', False)"
    by simp
  show ?case
  proof (cases b1)
    case False
    with m have m': "fold (move graph (length p) i) (js i) (p, k, b) = (p1, k1, False)" by simp
    from fold_move_unimproved [OF m'] have 0: "b = False" "p1 = p" "k1 = k"
      and 00: "\<forall>j \<in> set (js i). (i = 0 \<and> j = length p - 1) \<or> \<not> improving graph p i j"
      by blast+
    from f0 0 have f: "fold (\<lambda>i. fold (move graph (length p1) i) (js i)) is (p1, k1, b1) = (p', k', False)"
      by simp
    from Cons.IH [OF f] 0 00 show ?thesis by auto
  next
    case True
    have keep: "snd (snd (fold (move graph sz i) js (q, c, True)))" for sz i js q c
    proof (induction js arbitrary: q c)
      case Nil
      show ?case by simp
    next
      case (Cons j js)
      obtain q1 c1 b2 where mm: "move graph sz i j (q, c, True) = (q1, c1, b2)"
        by (cases "move graph sz i j (q, c, True)")
      with move_keeps_True [of graph sz i j q c] have "b2" by simp
      with mm Cons.IH [of q1 c1] show ?case by simp
    qed
    have keep2: "snd (snd (fold (\<lambda>i. fold (move graph sz i) (js i)) is (q, c, True)))" for sz "is" q c
    proof (induction "is" arbitrary: q c)
      case Nil
      show ?case by simp
    next
      case (Cons i "is")
      obtain q1 c1 b2 where mm: "fold (move graph sz i) (js i) (q, c, True) = (q1, c1, b2)"
        by (cases "fold (move graph sz i) (js i) (q, c, True)")
      with keep [of sz i "js i" q c] have "b2" by simp
      with mm Cons.IH [of q1 c1] show ?case by simp
    qed
    from keep2 [of "length p" "is" p1 k1] f0 True show ?thesis by simp
  qed
qed

lemma sweep_unimproved:
  assumes "sweep graph (length p) (p, k, False) = (p', k', False)"
  shows "p' = p \<and> k' = k \<and>
         (\<forall>i j. i + 2 \<le> j \<and> j < length p \<and> \<not> (i = 0 \<and> j = length p - 1)
            \<longrightarrow> \<not> improving graph p i j)"
proof -
  from fold_rows_unimproved [OF assms [unfolded sweep_def]]
  have eq: "p' = p \<and> k' = k"
    and all: "\<forall>i \<in> set [0..<length p]. \<forall>j \<in> set [i + 2..<length p].
               (i = 0 \<and> j = length p - 1) \<or> \<not> improving graph p i j"
    by blast+
  have "\<not> improving graph p i j"
    if "i + 2 \<le> j" "j < length p" "\<not> (i = 0 \<and> j = length p - 1)" for i j
  proof -
    from that have "i \<in> set [0..<length p]" "j \<in> set [i + 2..<length p]" by simp_all
    with all that(3) show ?thesis by blast
  qed
  with eq show ?thesis by blast
qed

lemma length_move: "length (fst (move graph sz i j st)) = length (fst st)"
  by (auto simp: move_def Let_def length_reverse split: prod.splits option.splits)

lemma length_fold_move: "length (fst (fold (move graph sz i) js st)) = length (fst st)"
  by (induction js arbitrary: st) (simp_all add: length_move)

lemma length_sweep: "length (fst (sweep graph sz st)) = length (fst st)"
proof -
  have "length (fst (fold (\<lambda>i. fold (move graph sz i) (js i)) is st)) = length (fst st)" for js "is"
    by (induction "is" arbitrary: st) (simp_all add: length_fold_move)
  then show ?thesis by (simp add: sweep_def)
qed

lemma sweeps_converged:
  assumes "sweeps graph (length path) c path cost = (p', k', c', Converged)"
  shows "\<forall>i j. i + 2 \<le> j \<and> j < length p' \<and> \<not> (i = 0 \<and> j = length p' - 1)
            \<longrightarrow> \<not> improving graph p' i j"
  using assms
proof (induction c arbitrary: path cost)
  case 0
  then show ?case by simp
next
  case (Suc c)
  obtain p1 c1 i1 where sw: "sweep graph (length path) (path, cost, False) = (p1, c1, i1)"
    by (cases "sweep graph (length path) (path, cost, False)")
  have len: "length p1 = length path"
    using length_sweep [of graph "length path" "(path, cost, False)"] sw by simp
  show ?case
  proof (cases i1)
    case True
    with Suc.prems sw have "sweeps graph (length p1) c p1 c1 = (p', k', c', Converged)"
      by (simp add: len)
    then show ?thesis by (rule Suc.IH)
  next
    case False
    with Suc.prems sw have "p' = p1" by simp
    moreover from sw False have "sweep graph (length path) (path, cost, False) = (p1, c1, False)"
      by simp
    from sweep_unimproved [OF this]
    have "p1 = path" and "\<forall>i j. i + 2 \<le> j \<and> j < length path \<and> \<not> (i = 0 \<and> j = length path - 1)
            \<longrightarrow> \<not> improving graph path i j" by blast+
    ultimately show ?thesis by simp
  qed
qed

subsection \<open>The cost of a tour after a reversal\<close>

lemma sum_split5:
  fixes f :: "nat \<Rightarrow> real"
  assumes "i < j" "j < n"
  shows "sum f {..<n} = sum f {0..<i} + f i + sum f {i + 1..<j} + f j + sum f {j + 1..<n}"
proof -
  have "sum f {..<n} = sum f {0..<n}" by (simp add: lessThan_atLeast0)
  also have "\<dots> = sum f {0..<i} + sum f {i..<n}"
    using assms by (simp add: sum.atLeastLessThan_concat)
  also have "sum f {i..<n} = f i + sum f {i + 1..<n}"
    using assms by (simp add: sum.atLeast_Suc_lessThan)
  also have "sum f {i + 1..<n} = sum f {i + 1..<j} + sum f {j..<n}"
    using assms by (simp add: sum.atLeastLessThan_concat)
  also have "sum f {j..<n} = f j + sum f {j + 1..<n}"
    using assms by (simp add: sum.atLeast_Suc_lessThan)
  finally show ?thesis by simp
qed

lemma sum_flip:
  fixes f :: "nat \<Rightarrow> real"
  shows "(\<Sum>k\<in>{a..<b}. f (a + b - 1 - k)) = sum f {a..<b}"
  by (rule sum.reindex_bij_witness [of _ "\<lambda>k. a + b - 1 - k" "\<lambda>k. a + b - 1 - k"]) auto

lemma tourCost_reverse:
  assumes sym: "\<forall>u v. weight g u v = weight g v u"
    and ij: "i + 2 \<le> j" and jn: "j < length p"
  shows "tourCost g (reverse p (i + 1) j) =
         tourCost g p
         + ((weight g (p ! i) (p ! j) + weight g (p ! (i + 1)) (p ! ((j + 1) mod length p)))
            - (weight g (p ! i) (p ! (i + 1)) + weight g (p ! j) (p ! ((j + 1) mod length p))))"
proof -
  define n where "n = length p"
  define q where "q = reverse p (i + 1) j"
  define e where "e r k = weight g (r ! k) (r ! ((k + 1) mod n))" for r k
  have lq: "length q = n" by (simp add: q_def n_def length_reverse)
  have q: "q ! k = (if i + 1 \<le> k \<and> k \<le> j then p ! (i + 1 + j - k) else p ! k)" if "k < n" for k
    using that jn unfolding q_def n_def by (simp add: nth_reverse)
  have n0: "0 < n" "i < j" "j < n" "i + 1 < n" using ij jn by (auto simp: n_def)
  have succ: "(k + 1) mod n < n" for k using n0 by simp
  have low: "e q k = e p k" if "k < i" for k
  proof -
    from that n0 have "(k + 1) mod n = k + 1" by simp
    with that n0 show ?thesis by (simp add: e_def q)
  qed
  have high: "e q k = e p k" if "j < k" "k < n" for k
  proof (cases "k + 1 < n")
    case True
    then have "(k + 1) mod n = k + 1" by simp
    with that True show ?thesis by (simp add: e_def q)
  next
    case False
    with that have "k + 1 = n" by simp
    then have "(k + 1) mod n = 0" by simp
    with that n0 show ?thesis by (simp add: e_def q)
  qed
  have mid: "e q k = e p (i + 1 + j - 1 - k)" if "i + 1 \<le> k" "k < j" for k
  proof -
    define m where "m = i + 1 + j - 1 - k"
    from that have m1: "i + 1 + j - k = m + 1" and m2: "i + 1 + j - (k + 1) = m"
      by (simp_all add: m_def)
    from that n0 have mm: "(m + 1) mod n = m + 1" by (simp add: m_def)
    from that n0 have k1: "(k + 1) mod n = k + 1" by simp
    have qk: "q ! k = p ! (m + 1)"
      using q [of k] that n0 by (simp only: m1 [symmetric]) simp
    have qk1: "q ! (k + 1) = p ! m"
      using q [of "k + 1"] that n0 by (simp only: m2 [symmetric]) simp
    have "e q k = weight g (p ! (m + 1)) (p ! m)"
      by (simp only: e_def k1 qk qk1)
    also have "\<dots> = weight g (p ! m) (p ! (m + 1))"
      using sym by blast
    also have "\<dots> = e p m"
      by (simp only: e_def mm)
    finally show ?thesis by (simp only: m_def)
  qed
  have at_i: "e q i = weight g (p ! i) (p ! j)"
  proof -
    from n0 have "(i + 1) mod n = i + 1" by simp
    with n0 show ?thesis by (simp add: e_def q)
  qed
  have at_i': "e p i = weight g (p ! i) (p ! (i + 1))"
  proof -
    from n0 have "(i + 1) mod n = i + 1" by simp
    then show ?thesis by (simp add: e_def)
  qed
  have at_j: "e q j = weight g (p ! (i + 1)) (p ! ((j + 1) mod n))"
  proof (cases "j + 1 < n")
    case True
    then have "(j + 1) mod n = j + 1" by simp
    with True n0 show ?thesis by (simp add: e_def q)
  next
    case False
    with n0 have "j + 1 = n" by simp
    then have "(j + 1) mod n = 0" by simp
    with n0 show ?thesis by (simp add: e_def q)
  qed
  have at_j': "e p j = weight g (p ! j) (p ! ((j + 1) mod n))"
    by (simp add: e_def)
  have "sum (e q) {i + 1..<j} = (\<Sum>k\<in>{i + 1..<j}. e p (i + 1 + j - 1 - k))"
    by (rule sum.cong) (simp_all add: mid)
  also have "\<dots> = sum (e p) {i + 1..<j}" by (rule sum_flip)
  finally have mids: "sum (e q) {i + 1..<j} = sum (e p) {i + 1..<j}" .
  have lows: "sum (e q) {0..<i} = sum (e p) {0..<i}"
    by (rule sum.cong) (simp_all add: low)
  have highs: "sum (e q) {j + 1..<n} = sum (e p) {j + 1..<n}"
    by (rule sum.cong) (simp_all add: high)
  have "tourCost g q = sum (e q) {..<n}" by (simp add: tourCost_def lq e_def)
  also have "\<dots> = sum (e q) {0..<i} + e q i + sum (e q) {i + 1..<j} + e q j + sum (e q) {j + 1..<n}"
    by (rule sum_split5) (use n0 in simp_all)
  finally have A: "tourCost g q = sum (e p) {0..<i} + e q i + sum (e p) {i + 1..<j} + e q j + sum (e p) {j + 1..<n}"
    by (simp only: lows mids highs)
  have "tourCost g p = sum (e p) {..<n}" by (simp add: tourCost_def n_def e_def)
  also have "\<dots> = sum (e p) {0..<i} + e p i + sum (e p) {i + 1..<j} + e p j + sum (e p) {j + 1..<n}"
    by (rule sum_split5) (use n0 in simp_all)
  finally have B: "tourCost g p = sum (e p) {0..<i} + e p i + sum (e p) {i + 1..<j} + e p j + sum (e p) {j + 1..<n}" .
  from A B have "tourCost g q = tourCost g p + ((e q i + e q j) - (e p i + e p j))" by simp
  then show ?thesis
    unfolding at_i at_i' at_j at_j' by (simp add: q_def n_def)
qed

lemma move_cases:
  "move g sz i j (p, k, b) = (p, k, b) \<or>
   (\<exists>wa wb. edge g (p ! i) (p ! j) = Some wa \<and>
      edge g (p ! ((i + 1) mod sz)) (p ! ((j + 1) mod sz)) = Some wb \<and>
      move g sz i j (p, k, b) =
        (reverse p (i + 1) j,
         k + ((wa + wb) - (weight g (p ! i) (p ! ((i + 1) mod sz))
                           + weight g (p ! j) (p ! ((j + 1) mod sz)))),
         True))"
  by (auto simp: move_def Let_def split: option.splits)

lemma move_cost_ok:
  assumes sym: "\<forall>u v. weight g u v = weight g v u"
    and st: "length (fst st) = sz" "fst (snd st) = tourCost g (fst st)"
    and ij: "i + 2 \<le> j" "j < sz"
  shows "fst (snd (move g sz i j st)) = tourCost g (fst (move g sz i j st))"
proof -
  obtain p k b where s: "st = (p, k, b)" by (cases st)
  from st s have len: "length p = sz" and k: "k = tourCost g p" by simp_all
  from ij have m: "(i + 1) mod sz = i + 1" by simp
  have r: "tourCost g (reverse p (i + 1) j) =
       tourCost g p
         + ((weight g (p ! i) (p ! j) + weight g (p ! (i + 1)) (p ! ((j + 1) mod sz)))
            - (weight g (p ! i) (p ! (i + 1)) + weight g (p ! j) (p ! ((j + 1) mod sz))))"
    using tourCost_reverse [OF sym ij(1), of p] ij(2) len by simp
  from move_cases [of g sz i j p k b] show ?thesis
  proof (elim disjE exE conjE)
    assume "move g sz i j (p, k, b) = (p, k, b)"
    then show ?thesis by (simp add: s k)
  next
    fix wa wb
    assume a: "edge g (p ! i) (p ! j) = Some wa"
      and b: "edge g (p ! ((i + 1) mod sz)) (p ! ((j + 1) mod sz)) = Some wb"
      and mv: "move g sz i j (p, k, b) =
        (reverse p (i + 1) j,
         k + ((wa + wb) - (weight g (p ! i) (p ! ((i + 1) mod sz))
                           + weight g (p ! j) (p ! ((j + 1) mod sz)))),
         True)"
    from a have wa: "weight g (p ! i) (p ! j) = wa" by (simp add: weight_def)
    from b have "edge g (p ! (i + 1)) (p ! ((j + 1) mod sz)) = Some wb"
      by (simp only: m)
    then have wb: "weight g (p ! (i + 1)) (p ! ((j + 1) mod sz)) = wb"
      by (simp add: weight_def)
    show ?thesis unfolding s mv by (simp only: fst_conv snd_conv r k m wa wb)
  qed
qed

subsection \<open>What a sweep preserves\<close>

lemma move_perm:
  assumes "length (fst st) = sz" "j < sz"
  shows "length (fst (move g sz i j st)) = sz \<and> mset (fst (move g sz i j st)) = mset (fst st)"
proof -
  obtain p k b where s: "st = (p, k, b)" by (cases st)
  from move_cases [of g sz i j p k b] assms show ?thesis
    by (auto simp: s length_reverse mset_reverse)
qed

lemma sweep_perm:
  assumes "length (fst st) = sz"
  shows "length (fst (sweep g sz st)) = sz \<and> mset (fst (sweep g sz st)) = mset (fst st)"
proof -
  define P where "P s \<longleftrightarrow> length (fst s) = sz \<and> mset (fst s) = mset (fst st)" for s :: sweep_state
  have row: "P (fold (move g sz i) [i + 2..<sz] s)" if "P s" for i s
  proof (rule fold_invariant [where Q = "\<lambda>j. j < sz" and P = P])
    show "P s" by (rule that)
  next
    fix j assume "j \<in> set [i + 2..<sz]"
    then show "j < sz" by simp
  next
    fix j s assume "j < sz" "P s"
    then show "P (move g sz i j s)" using move_perm [of s sz j g i] by (simp add: P_def)
  qed
  have "P (fold (\<lambda>i. fold (move g sz i) [i + 2..<sz]) [0..<sz] st)"
  proof (rule fold_invariant [where Q = "\<lambda>i. True" and P = P])
    show "P st" using assms by (simp add: P_def)
  next
    fix i s assume "P s"
    then show "P (fold (move g sz i) [i + 2..<sz] s)" by (rule row)
  qed simp
  then show ?thesis by (simp add: P_def sweep_def)
qed

lemma sweep_cost:
  assumes sym: "\<forall>u v. weight g u v = weight g v u"
    and "length (fst st) = sz" "fst (snd st) = tourCost g (fst st)"
  shows "fst (snd (sweep g sz st)) = tourCost g (fst (sweep g sz st))"
proof -
  define P where "P s \<longleftrightarrow> length (fst s) = sz \<and> fst (snd s) = tourCost g (fst s)" for s :: sweep_state
  have row: "P (fold (move g sz i) [i + 2..<sz] s)" if "P s" for i s
  proof (rule fold_invariant [where Q = "\<lambda>j. i + 2 \<le> j \<and> j < sz" and P = P])
    show "P s" by (rule that)
  next
    fix j assume "j \<in> set [i + 2..<sz]"
    then show "i + 2 \<le> j \<and> j < sz" by simp
  next
    fix j s assume "i + 2 \<le> j \<and> j < sz" "P s"
    then show "P (move g sz i j s)"
      using move_perm [of s sz j g i] move_cost_ok [OF sym, of s sz i j] by (simp add: P_def)
  qed
  have "P (fold (\<lambda>i. fold (move g sz i) [i + 2..<sz]) [0..<sz] st)"
  proof (rule fold_invariant [where Q = "\<lambda>i. True" and P = P])
    show "P st" using assms by (simp add: P_def)
  next
    fix i s assume "P s"
    then show "P (fold (move g sz i) [i + 2..<sz] s)" by (rule row)
  qed simp
  then show ?thesis by (simp add: P_def sweep_def)
qed

lemma sweeps_perm:
  "length path = sz \<Longrightarrow> mset (fst (sweeps g sz c path cost)) = mset path"
proof (induction c arbitrary: path cost)
  case 0
  show ?case by simp
next
  case (Suc c)
  obtain p1 c1 i1 where sw: "sweep g sz (path, cost, False) = (p1, c1, i1)"
    by (cases "sweep g sz (path, cost, False)")
  from sweep_perm [of "(path, cost, False)" sz g] Suc.prems sw
  have 1: "length p1 = sz" "mset p1 = mset path" by simp_all
  show ?case
  proof (cases i1)
    case True
    with sw Suc.IH [OF 1(1), of c1] 1 show ?thesis by simp
  next
    case False
    with sw 1 show ?thesis by simp
  qed
qed

lemma sweeps_cost:
  assumes sym: "\<forall>u v. weight g u v = weight g v u"
  shows "length path = sz \<Longrightarrow> cost = tourCost g path \<Longrightarrow>
         fst (snd (sweeps g sz c path cost)) = tourCost g (fst (sweeps g sz c path cost))"
proof (induction c arbitrary: path cost)
  case 0
  then show ?case by simp
next
  case (Suc c)
  obtain p1 c1 i1 where sw: "sweep g sz (path, cost, False) = (p1, c1, i1)"
    by (cases "sweep g sz (path, cost, False)")
  from sweep_perm [of "(path, cost, False)" sz g] Suc.prems sw
  have 1: "length p1 = sz" by simp
  from sweep_cost [OF sym, of "(path, cost, False)" sz] Suc.prems sw
  have 2: "c1 = tourCost g p1" by simp
  show ?case
  proof (cases i1)
    case True
    with sw Suc.IH [OF 1 2] show ?thesis by simp
  next
    case False
    with sw 2 show ?thesis by simp
  qed
qed

lemma symmetric_weight: "symmetric g \<Longrightarrow> \<forall>u v. weight g u v = weight g v u"
  by (simp add: symmetric_def weight_def)

section \<open>Facts about the orchestrator\<close>

lemma pipeline_result:
  assumes g: "graph_inv g" and s: "s \<in> set (nodes g)" and n: "1 \<le> length (nodes g)"
    and r: "pipeline s (length (nodes g)) g rng ords c = (Some (p, k), rng', ords', c')"
  shows "distinct p \<and> set p = set (nodes g) \<and> (symmetric g \<longrightarrow> k = tourCost g p)"
proof -
  from r obtain p0 k0 x where
    c: "randomizedNearestNeighbor s (length (nodes g)) g rng ords = (Some (p0, k0), rng', ords')"
    and t: "twoOpt p0 k0 g c = (p, k, c', x)"
    by (auto simp: pipeline_def split: prod.splits option.splits)
  from rnn_result [OF g s n c]
  have 0: "distinct p0" "set p0 \<subseteq> set (nodes g)" "length p0 = length (nodes g)"
    "k0 = tourCost g p0" by blast+
  from t have m: "mset p = mset p0"
    using sweeps_perm [of p0 "length p0" g c k0] by (simp add: twoOpt_def)
  from m 0(1) have d: "distinct p" by (metis mset_eq_imp_distinct_iff)
  from m have se: "set p = set p0" by (metis set_mset_mset)
  from m have "length p = length p0" by (metis size_mset)
  with d se 0 have "set p = set (nodes g)"
    by (intro perm_of_nodes [OF g]) simp_all
  moreover have "k = tourCost g p" if "symmetric g"
    using sweeps_cost [OF symmetric_weight [OF that], of p0 "length p0" k0 c] 0(4) t
    by (simp add: twoOpt_def)
  ultimately show ?thesis using d by blast
qed

lemma worker_Suc:
  assumes "Intn rng n = (r, rng1)"
    and "pipeline (nodes g ! r) n g rng1 ords c = (res, rng2, ords2, c2)"
  shows "worker g n (Suc c) rng ords =
         (case res of None \<Rightarrow> [] | Some a \<Rightarrow> [a]) @ worker g n c2 rng2 ords2"
  using assms by (simp split: option.splits)

lemma worker_all:
  assumes step: "\<And>s rng ords c a rng' ords' c'.
      s \<in> set (nodes g) \<Longrightarrow> pipeline s n g rng ords c = (Some a, rng', ords', c') \<Longrightarrow> Q a"
    and n: "0 < n" "n = length (nodes g)"
  shows "a \<in> set (worker g n c rng ords) \<Longrightarrow> Q a"
proof (induction c arbitrary: rng ords rule: less_induct)
  case (less c)
  show ?case
  proof (cases c)
    case 0
    with less.prems show ?thesis by simp
  next
    case (Suc c0)
    obtain r rng1 where I: "Intn rng n = (r, rng1)" by (cases "Intn rng n")
    obtain res rng2 ords2 c2 where
      P: "pipeline (nodes g ! r) n g rng1 ords c0 = (res, rng2, ords2, c2)"
      by (cases "pipeline (nodes g ! r) n g rng1 ords c0")
    from pipeline_ctx_le [OF P] Suc have lt: "c2 < c" by simp
    have "r < n" using Intn_less [OF n(1), of rng] I by simp
    then have s: "nodes g ! r \<in> set (nodes g)" using n(2) by simp
    from less.prems have "a \<in> set ((case res of None \<Rightarrow> [] | Some a \<Rightarrow> [a])
                                    @ worker g n c2 rng2 ords2)"
      unfolding Suc worker_Suc [OF I P] .
    then have "res = Some a \<or> a \<in> set (worker g n c2 rng2 ords2)"
      by (auto split: option.splits)
    then show ?thesis
    proof
      assume "res = Some a"
      with P step [OF s] show ?thesis by blast
    next
      assume "a \<in> set (worker g n c2 rng2 ords2)"
      then show ?thesis by (rule less.IH [OF lt])
    qed
  qed
qed

lemma worker_log:
  assumes g: "graph_inv g" and n: "1 \<le> length (nodes g)"
    and a: "(p, k) \<in> set (worker g (length (nodes g)) c rng ords)"
  shows "distinct p \<and> set p = set (nodes g) \<and> (symmetric g \<longrightarrow> k = tourCost g p)"
proof -
  define Q where "Q a \<longleftrightarrow> distinct (fst a) \<and> set (fst a) = set (nodes g)
      \<and> (symmetric g \<longrightarrow> snd a = tourCost g (fst a))" for a :: "int list \<times> real"
  have "Q (p, k)"
  proof (rule worker_all [where Q = Q, OF _ _ _ a])
    fix s rng ords c a rng' ords' c'
    assume "s \<in> set (nodes g)"
      and "pipeline s (length (nodes g)) g rng ords c = (Some a, rng', ords', c')"
    then show "Q a"
      using pipeline_result [OF g _ n, of s rng ords c "fst a" "snd a" rng' ords' c']
      by (simp add: Q_def)
  qed (use n in auto)
  then show ?thesis by (simp add: Q_def)
qed

lemma worker_none:
  assumes "\<forall>s rng ords. fst (randomizedNearestNeighbor s n g rng ords) = None"
  shows "worker g n c rng ords = []"
proof (induction c arbitrary: rng ords rule: less_induct)
  case (less c)
  show ?case
  proof (cases c)
    case 0
    then show ?thesis by simp
  next
    case (Suc c0)
    obtain r rng1 where I: "Intn rng n = (r, rng1)" by (cases "Intn rng n")
    obtain res rng2 ords2 c2 where
      P: "pipeline (nodes g ! r) n g rng1 ords c0 = (res, rng2, ords2, c2)"
      by (cases "pipeline (nodes g ! r) n g rng1 ords c0")
    from pipeline_ctx_le [OF P] Suc have lt: "c2 < c" by simp
    from assms have "fst (randomizedNearestNeighbor (nodes g ! r) n g rng1 ords) = None"
      by blast
    with P have "res = None"
      by (auto simp: pipeline_def split: prod.splits option.splits)
    with less.IH [OF lt] show ?thesis
      unfolding Suc worker_Suc [OF I P] by simp
  qed
qed

lemma interleave_set:
  "x \<in> set (interleave s logs) \<Longrightarrow> \<exists>l \<in> set logs. x \<in> set l"
proof (induction s arbitrary: logs)
  case Nil
  then show ?case by auto
next
  case (Cons w s)
  show ?case
  proof (cases "w < length logs")
    case False
    with Cons.prems have "x \<in> set (interleave s logs)" by simp
    then show ?thesis by (rule Cons.IH)
  next
    case True
    then have mem: "logs ! w \<in> set logs" by simp
    show ?thesis
    proof (cases "logs ! w")
      case Nil
      with True Cons.prems have "x \<in> set (interleave s logs)" by simp
      then show ?thesis by (rule Cons.IH)
    next
      case (Cons a rest)
      with True Cons.prems
      have "x = a \<or> x \<in> set (interleave s (logs[w := rest]))" by simp
      then show ?thesis
      proof
        assume "x = a"
        with Cons have "x \<in> set (logs ! w)" by simp
        with mem show ?thesis by blast
      next
        assume "x \<in> set (interleave s (logs[w := rest]))"
        then obtain l where l: "l \<in> set (logs[w := rest])" "x \<in> set l"
          using Cons.IH by blast
        from l(1) have "l = rest \<or> l \<in> set logs"
          using set_update_subset_insert [of logs w rest] by blast
        then show ?thesis
        proof
          assume "l = rest"
          with l(2) Cons have "x \<in> set (logs ! w)" by simp
          with mem show ?thesis by blast
        next
          assume "l \<in> set logs"
          with l(2) show ?thesis by blast
        qed
      qed
    qed
  qed
qed

lemma interleave_length: "length (interleave s logs) = sum_list (map length logs)"
proof (induction s arbitrary: logs)
  case Nil
  show ?case by (simp add: length_concat)
next
  case (Cons w s)
  show ?case
  proof (cases "w < length logs")
    case False
    with Cons.IH [of logs] show ?thesis by simp
  next
    case True
    show ?thesis
    proof (cases "logs ! w")
      case Nil
      with True Cons.IH [of logs] show ?thesis by simp
    next
      case (Cons a rest)
      have "length (logs ! w) \<in> set (map length logs)" using True by simp
      then have le: "length (logs ! w) \<le> sum_list (map length logs)"
        by (simp add: member_le_sum_list)
      have "sum_list (map length (logs[w := rest])) = sum_list ((map length logs)[w := length rest])"
        by (simp add: map_update)
      also have "\<dots> = sum_list (map length logs) + length rest - length (logs ! w)"
        using True by (simp add: sum_list_update)
      finally have "Suc (sum_list (map length (logs[w := rest]))) = sum_list (map length logs)"
        using Cons le by simp
      with True Cons Cons.IH [of "logs[w := rest]"] show ?thesis by simp
    qed
  qed
qed

lemma foldl_report:
  "foldl report (bp, bc, n) xs = (bp', bc', n') \<Longrightarrow>
     n' = n + length xs \<and> (bp' = bp \<and> bc' = bc \<or> (bp', bc') \<in> (\<lambda>(p, c). (Some p, c)) ` set xs)"
proof (induction xs arbitrary: bp bc n)
  case Nil
  then show ?case by simp
next
  case (Cons x xs)
  obtain p c where x: "x = (p, c)" by (cases x)
  show ?case
  proof (cases "c < bc")
    case True
    with Cons.prems x have "foldl report (Some p, c, n + 1) xs = (bp', bc', n')" by simp
    from Cons.IH [OF this] x show ?thesis by auto
  next
    case False
    with Cons.prems x have "foldl report (bp, bc, n + 1) xs = (bp', bc', n')" by simp
    from Cons.IH [OF this] x show ?thesis by auto
  qed
qed

lemma interleave_Nil: "interleave s [] = []"
  by (induction s) simp_all

lemma solve_found:
  assumes n: "2 \<le> NodeCount g"
    and r: "SolveTSP g maxCPU maxSeconds env = (tour, cost, cnt)"
    and t: "tour \<noteq> []"
  shows "\<exists>l \<in> set (completed g maxCPU maxSeconds env). (tour, cost) \<in> set l"
proof -
  let ?m = "interleave (sched env) (completed g maxCPU maxSeconds env)"
  obtain bp bc k where f: "foldl report (None, MaxFloat64, 0) ?m = (bp, bc, k)"
    by (cases "foldl report (None, MaxFloat64, 0) ?m")
  from n r t f have bp: "bp = Some tour" and bc: "bc = cost"
    by (auto simp: SolveTSP_def Let_def split: option.splits)
  from foldl_report [OF f] bp bc have "(tour, cost) \<in> set ?m" by auto
  then show ?thesis by (rule interleave_set)
qed

lemma solve_count:
  assumes n: "2 \<le> NodeCount g"
  shows "snd (snd (SolveTSP g maxCPU maxSeconds env))
         = length (concat (completed g maxCPU maxSeconds env))"
proof -
  let ?m = "interleave (sched env) (completed g maxCPU maxSeconds env)"
  obtain bp bc k where f: "foldl report (None, MaxFloat64, 0) ?m = (bp, bc, k)"
    by (cases "foldl report (None, MaxFloat64, 0) ?m")
  from foldl_report [OF f] have "k = length ?m" by simp
  with n f show ?thesis
    by (simp add: SolveTSP_def Let_def interleave_length length_concat split: option.splits)
qed

lemma solve_nothing:
  assumes n: "2 \<le> NodeCount g" and e: "concat (completed g maxCPU maxSeconds env) = []"
  shows "SolveTSP g maxCPU maxSeconds env = ([], 0, 0)"
proof -
  let ?m = "interleave (sched env) (completed g maxCPU maxSeconds env)"
  have "length ?m = 0" using e by (simp add: interleave_length length_concat [symmetric])
  then have "?m = []" by simp
  with n show ?thesis by (simp add: SolveTSP_def Let_def)
qed

lemma completed_none:
  assumes "\<forall>s rng ords. fst (randomizedNearestNeighbor s (NodeCount g) g rng ords) = None"
  shows "concat (completed g maxCPU maxSeconds env) = []"
  using assms by (simp add: completed_def Let_def worker_none)

lemma solve_tour:
  assumes g: "graph_inv g"
    and r: "SolveTSP g maxCPU maxSeconds env = (tour, cost, cnt)"
    and t: "tour \<noteq> []"
  shows "distinct tour \<and> set tour = set (nodes g) \<and>
         (symmetric g \<longrightarrow> 2 \<le> NodeCount g \<longrightarrow> cost = tourCost g tour) \<and>
         (NodeCount g = 1 \<longrightarrow> cost = 0)"
proof -
  consider "NodeCount g = 0" | "NodeCount g = 1" | "2 \<le> NodeCount g" by linarith
  then show ?thesis
  proof cases
    case 1
    with r t show ?thesis by (simp add: SolveTSP_def)
  next
    case 2
    with r have "tour = nodes g" "cost = 0" by (simp_all add: SolveTSP_def)
    with g 2 show ?thesis by (simp add: graph_inv_def)
  next
    case 3
    from solve_found [OF 3 r t] obtain l where
      l: "l \<in> set (completed g maxCPU maxSeconds env)" "(tour, cost) \<in> set l" by blast
    from l(1) obtain c rng ords where "l = worker g (length (nodes g)) c rng ords"
      by (auto simp: completed_def Let_def NodeCount_def split: if_splits)
    with l(2) have "(tour, cost) \<in> set (worker g (length (nodes g)) c rng ords)" by simp
    from worker_log [OF g _ this] 3 show ?thesis by (simp add: NodeCount_def)
  qed
qed

subsection \<open>The draws a construction uses\<close>

lemma Intn_take:
  "take (Suc m) r1 = take (Suc m) r2 \<Longrightarrow>
     fst (Intn r1 k) = fst (Intn r2 k) \<and> take m (snd (Intn r1 k)) = take m (snd (Intn r2 k))"
  by (cases r1; cases r2) auto

lemma buildPath_draws:
  "m = n - length path \<Longrightarrow> take m r1 = take m r2 \<Longrightarrow>
     fst (buildPath g n path vis cur tc r1 ords) = fst (buildPath g n path vis cur tc r2 ords)"
proof (induction m arbitrary: path vis cur tc r1 r2 ords)
  case 0
  then have "\<not> length path < n" by simp
  then show ?case by (simp add: buildPath.simps [of g n path])
next
  case (Suc m)
  then have lt: "length path < n" by simp
  define topK where "topK = topK_of vis (ranged (nextOrder ords) (neighbors g cur))"
  show ?case
  proof (cases "topK = []")
    case True
    with lt show ?thesis
      by (simp add: buildPath.simps [of g n path] topK_def [symmetric])
  next
    case False
    obtain a1 s1 where I1: "Intn r1 (length topK) = (a1, s1)" by (cases "Intn r1 (length topK)")
    obtain a2 s2 where I2: "Intn r2 (length topK) = (a2, s2)" by (cases "Intn r2 (length topK)")
    from Intn_take [OF Suc.prems(2), of "length topK"] I1 I2
    have a: "a1 = a2" and s: "take m s1 = take m s2" by simp_all
    have m: "m = n - length (path @ [fst (topK ! a2)])" using Suc.prems(1) by simp
    from Suc.IH [OF m s]
    show ?thesis
      using lt False I1 I2 a
      by (simp add: buildPath.simps [of g n path] topK_def [symmetric] Let_def)
  qed
qed

subsection \<open>A graph with one node\<close>

lemma one_node_constructs:
  assumes "nodes (build calls) = [u]"
  shows "fst (randomizedNearestNeighbor u 1 (build calls) rng ords) \<noteq> None"
proof -
  from one_node_self_loop [OF assms] obtain w where w: "edge (build calls) u u = Some w"
    by auto
  have "buildPath (build calls) 1 [u] {u} u 0 rng ords = (Some ([u], 0), rng, ords)"
    by (subst buildPath.simps) simp
  with w show ?thesis by (simp add: randomizedNearestNeighbor_def)
qed

section \<open>Evaluations\<close>

lemma twoOpt_k4: "twoOpt [1, 3, 2, 4] 12 k4 5 = ([1, 2, 3, 4], 4, 3, Converged)"
  by code_simp

lemma nodes_NewGraph: "nodes NewGraph = []"
  by (simp add: NewGraph_def)

lemma nodes_single: "nodes (build [(7, 7, 5)]) = [7]"
  by code_simp

lemma NodeCount_k4: "NodeCount k4 = 4"
  by code_simp

lemma solve_k4: "SolveTSP k4 2 10 env0 = ([1, 4, 3, 2], 4, 6)"
  by code_simp

lemma nodes_k4: "nodes k4 = [2, 1, 3, 4]"
  by code_simp

lemma tourCost_k4: "tourCost k4 [1, 4, 3, 2] = 4"
  by code_simp



lemma NodeCount_loops2: "NodeCount loops2 = 2"
  by code_simp

lemma completed_loops2: "concat (completed loops2 2 10 env0) = []"
  by code_simp

lemma pipeline_g5_2: "fst (pipeline 1 5 g5 [0, 0, 0, 0] [[2]] 9) = Some ([1, 2, 3, 4, 5], 24)"
  by code_simp

lemma pipeline_g5_3: "fst (pipeline 1 5 g5 [0, 0, 0, 0] [[3]] 9) = Some ([1, 3, 2, 5, 4], 17)"
  by code_simp

lemma edges_loops2: "edges loops2 = [(1, [(1, 5)]), (2, [(2, 1)])]"
  by code_simp

lemma loops2_dead_end: "fst (randomizedNearestNeighbor s 2 loops2 rng ords) = None"
proof -
  have "\<forall>c \<in> set (neighbors loops2 s). fst c \<in> {s}"
    by (simp add: neighbors_def edges_loops2)
  then have "topK_of {s} (ranged (nextOrder ords) (neighbors loops2 s)) = []"
    by (rule topK_of_visited)
  then have "buildPath loops2 2 [s] {s} s 0 rng ords = (None, rng, tl ords)"
    by (simp add: buildPath.simps [of loops2 2 "[s]"])
  then show ?thesis by (simp add: randomizedNearestNeighbor_def)
qed

section \<open>Claims about the graph\<close>

text \<open>
  C6, as the code has it. \<open>AddEdge\<close> has no check of its endpoints: a call with
  \<open>from = to\<close> stores the edge from the node to itself. So a graph built by a sequence of
  calls has a self-loop at \<open>u\<close> exactly when one of the calls was \<open>AddEdge(u, u, w)\<close>, and
  it has none when every call joins two different nodes.
\<close>

theorem C6_self_loop_iff_call:
  "(edge (build calls) u u \<noteq> None \<longleftrightarrow> (\<exists>w. (u, u, w) \<in> set calls)) \<and>
   ((\<forall>(a, b, w) \<in> set calls. a \<noteq> b) \<longrightarrow> edge (build calls) u u = None)"
proof -
  have "edge (build calls) u u \<noteq> None \<longleftrightarrow> (\<exists>w. (u, u, w) \<in> set calls)"
    unfolding edge_build by auto
  then show ?thesis by fastforce
qed

theorem C6_witness: "edge (build [(1, 2, 3), (2, 5, 1)]) 2 2 = None"
  using C6_self_loop_iff_call [of "[(1, 2, 3), (2, 5, 1)]" 2] by simp

text \<open>
  C6, as stated, fails at the single call \<open>AddEdge(3, 3, 1)\<close> on a new graph: the edge
  from node 3 to itself is stored, with weight 1.
\<close>

theorem C6_counterexample: "edge (AddEdge NewGraph 3 3 1) 3 3 = Some 1"
  by (simp add: edge_AddEdge)

text \<open>
  C7. In a graph built by any sequence of \<open>AddEdge\<close> calls the lookup of \<open>(u, v)\<close> and
  of \<open>(v, u)\<close> agree: both absent, or both present with the same weight. A call of
  \<open>AddEdge\<close> keeps this true of any graph of which it is true.
\<close>

theorem C7_symmetric:
  "(\<forall>u v. edge (build calls) u v = edge (build calls) v u) \<and>
   (symmetric g \<longrightarrow> symmetric (AddEdge g a b w))"
  using symmetric_build [of calls] symmetric_AddEdge [of g a b w]
  by (simp add: symmetric_def)

theorem C7_witness:
  "symmetric NewGraph \<and> symmetric (AddEdge NewGraph 4 2 7) \<and>
   edge (AddEdge NewGraph 4 2 7) 2 4 = Some 7 \<and> edge (AddEdge NewGraph 4 2 7) 4 2 = Some 7"
  using C7_symmetric [of "[]" NewGraph 4 2 7]
  by (simp add: symmetric_def edge_NewGraph edge_AddEdge)

section \<open>Claims about local search\<close>


text \<open>
  C4. When \<open>twoOpt\<close> leaves its loop because a sweep applied no move (and not because the
  context was cancelled), the tour it returns has no improving 2-opt move at any position
  pair \<open>(i, j)\<close> with \<open>j \<ge> i + 2\<close> other than \<open>(0, lastIndex)\<close>.
\<close>

theorem C4_converged_is_two_opt_optimal:
  assumes "twoOpt path cost graph c = (path', cost', c', Converged)"
  shows "\<forall>i j. i + 2 \<le> j \<and> j < length path' \<and> \<not> (i = 0 \<and> j = length path' - 1)
            \<longrightarrow> \<not> improving graph path' i j"
  using assms unfolding twoOpt_def by (rule sweeps_converged)

theorem C4_witness:
  "twoOpt [1, 3, 2, 4] 12 k4 5 = ([1, 2, 3, 4], 4, 3, Converged) \<and>
   \<not> improving k4 [1, 2, 3, 4] 0 2 \<and> \<not> improving k4 [1, 2, 3, 4] 1 3"
  using C4_converged_is_two_opt_optimal [OF twoOpt_k4] twoOpt_k4 by simp

section \<open>Claims about the orchestrator\<close>

text \<open>
  C8. On a graph without nodes \<open>SolveTSP\<close> returns the empty tour, cost 0 and 0 attempts;
  on a graph with the single node \<open>u\<close> it returns the tour \<open>[u]\<close>, cost 0 and 1 attempt.
  Both results are independent of the environment, and no worker is started: no
  construction or local search takes part in them.
\<close>

theorem C8_degenerate:
  "(NodeCount g = 0 \<longrightarrow>
      SolveTSP g maxCPU maxSeconds env = ([], 0, 0) \<and> completed g maxCPU maxSeconds env = []) \<and>
   (nodes g = [u] \<longrightarrow>
      SolveTSP g maxCPU maxSeconds env = ([u], 0, 1) \<and> completed g maxCPU maxSeconds env = [])"
  by (simp add: SolveTSP_def completed_def NodeCount_def)

theorem C8_witness:
  "NodeCount NewGraph = 0 \<and> SolveTSP NewGraph 2 10 env0 = ([], 0, 0) \<and>
   nodes (build [(7, 7, 5)]) = [7] \<and> SolveTSP (build [(7, 7, 5)]) 2 10 env0 = ([7], 0, 1)"
  using C8_degenerate [of NewGraph 2 10 env0 7] C8_degenerate [of "build [(7, 7, 5)]" 2 10 env0 7]
  by (simp add: nodes_single NodeCount_def nodes_NewGraph)

text \<open>
  C10. On a graph with at least two nodes, a requested parallelism that is zero or
  negative starts no worker, and \<open>SolveTSP\<close> returns the empty tour, cost 0 and 0
  attempts, whatever the time budget and the environment.
\<close>

theorem C10_no_workers:
  assumes "2 \<le> NodeCount g" and "maxCPU \<le> 0"
  shows "SolveTSP g maxCPU maxSeconds env = ([], 0, 0) \<and> completed g maxCPU maxSeconds env = []"
proof -
  from assms(2) have "nat (min (numCPU env) maxCPU) = 0" by simp
  with assms(1) show ?thesis
    by (simp add: SolveTSP_def completed_def Let_def interleave_Nil)
qed

theorem C10_witness:
  "2 \<le> NodeCount k4 \<and> SolveTSP k4 0 10 env0 = ([], 0, 0) \<and> SolveTSP k4 (- 1) 10 env0 = ([], 0, 0)"
  using C10_no_workers [of k4 0 10 env0] C10_no_workers [of k4 "- 1" 10 env0]
  by (simp add: NodeCount_k4)

section \<open>Claims about a solve\<close>

text \<open>
  C1. For a graph built by any sequence of \<open>AddEdge\<close> calls and any environment, a tour
  that \<open>SolveTSP\<close> returns and that is not empty has no node twice and has every node of
  the graph.
\<close>

theorem C1_tour_is_permutation:
  assumes "SolveTSP (build calls) maxCPU maxSeconds env = (tour, cost, cnt)"
    and "tour \<noteq> []"
  shows "distinct tour \<and> set tour = set (nodes (build calls))"
  using solve_tour [OF inv_build assms] by blast

theorem C1_witness:
  "SolveTSP k4 2 10 env0 = ([1, 4, 3, 2], 4, 6) \<and>
   distinct [1, 4, 3, 2 :: int] \<and> set [1, 4, 3, 2] = set (nodes k4)"
  using C1_tour_is_permutation [OF solve_k4 [unfolded k4_def]] solve_k4
  by (simp add: k4_def)




text \<open>
  C9. On a graph built by any sequence of \<open>AddEdge\<close> calls on which every construction
  fails (from every start node, with every random source and iteration order),
  \<open>SolveTSP\<close> returns the empty tour, cost 0 and the attempt count 0, in every
  environment. And on every such graph whose number of nodes is not 1, the attempt count
  returned is the number of attempts the workers completed (a failed construction is not
  among them), and a solve in which no worker completed an attempt before it saw the
  context cancelled returns the empty tour, cost 0 and 0 attempts.
\<close>

theorem C9_no_completed_attempt:
  "((\<forall>s rng ords.
       fst (randomizedNearestNeighbor s (NodeCount (build calls)) (build calls) rng ords) = None)
      \<longrightarrow> SolveTSP (build calls) maxCPU maxSeconds env = ([], 0, 0)) \<and>
   (NodeCount (build calls) \<noteq> 1 \<longrightarrow>
      snd (snd (SolveTSP (build calls) maxCPU maxSeconds env))
        = length (concat (completed (build calls) maxCPU maxSeconds env)) \<and>
      (concat (completed (build calls) maxCPU maxSeconds env) = []
         \<longrightarrow> SolveTSP (build calls) maxCPU maxSeconds env = ([], 0, 0)))"
proof -
  let ?g = "build calls"
  consider "NodeCount ?g = 0" | "NodeCount ?g = 1" | "2 \<le> NodeCount ?g" by linarith
  then show ?thesis
  proof cases
    case 1
    then show ?thesis by (simp add: SolveTSP_def completed_def)
  next
    case 2
    then obtain u where u: "nodes ?g = [u]"
      by (cases "nodes ?g") (auto simp: NodeCount_def)
    from one_node_constructs [OF u]
    have nH: "\<not> (\<forall>s rng ords.
        fst (randomizedNearestNeighbor s (NodeCount ?g) ?g rng ords) = None)"
      unfolding 2 by blast
    show ?thesis
    proof (intro conjI impI)
      assume "\<forall>s rng ords. fst (randomizedNearestNeighbor s (NodeCount ?g) ?g rng ords) = None"
      with nH show "SolveTSP ?g maxCPU maxSeconds env = ([], 0, 0)" by contradiction
    next
      assume "NodeCount ?g \<noteq> 1"
      with 2 show "snd (snd (SolveTSP ?g maxCPU maxSeconds env))
        = length (concat (completed ?g maxCPU maxSeconds env))" by contradiction
    next
      assume "NodeCount ?g \<noteq> 1"
      with 2 show "SolveTSP ?g maxCPU maxSeconds env = ([], 0, 0)" by contradiction
    qed
  next
    case 3
    from solve_count [OF 3] solve_nothing [OF 3] completed_none [of ?g] 3
    show ?thesis by blast
  qed
qed

theorem C9_witness:
  "(\<forall>s rng ords. fst (randomizedNearestNeighbor s (NodeCount loops2) loops2 rng ords) = None) \<and>
   SolveTSP loops2 2 10 env0 = ([], 0, 0) \<and>
   NodeCount loops2 = 2 \<and> concat (completed loops2 2 10 env0) = [] \<and>
   snd (snd (SolveTSP k4 2 10 env0)) = length (concat (completed k4 2 10 env0))"
  using C9_no_completed_attempt [of "[(1, 1, 5), (2, 2, 1)]" 2 10 env0]
    C9_no_completed_attempt
      [of "[(1, 2, 1), (2, 3, 1), (3, 4, 1), (4, 1, 1), (1, 3, 5), (2, 4, 5)]" 2 10 env0]
    NodeCount_loops2 NodeCount_k4 completed_loops2 loops2_dead_end
  by (simp add: loops2_def [symmetric] k4_def [symmetric])

text \<open>
  C5, as the code has it. Two runs of construction and refinement on the same graph,
  from the same start node, with the same iteration orders of the neighbour maps and the
  same view of the context return the same tour and cost when their random sources agree
  on the first \<open>numNodes - 1\<close> draws, as two sources with the same seed do.
\<close>

theorem C5_replay_same_draws_and_orders:
  assumes "take (numNodes - 1) rng1 = take (numNodes - 1) rng2"
  shows "fst (pipeline s numNodes g rng1 ords c) = fst (pipeline s numNodes g rng2 ords c)"
proof -
  have "fst (buildPath g numNodes [s] {s} s 0 rng1 ords)
      = fst (buildPath g numNodes [s] {s} s 0 rng2 ords)"
    by (rule buildPath_draws [OF _ assms]) simp
  then have "fst (randomizedNearestNeighbor s numNodes g rng1 ords)
      = fst (randomizedNearestNeighbor s numNodes g rng2 ords)"
    by (auto simp: randomizedNearestNeighbor_def Let_def split: prod.splits option.splits)
  then show ?thesis
    by (auto simp: pipeline_def split: prod.splits option.splits)
qed

theorem C5_witness:
  "fst (pipeline 1 5 g5 [0, 0, 0, 0, 7] [[3]] 9) = Some ([1, 3, 2, 5, 4], 17)"
  using C5_replay_same_draws_and_orders [of 5 "[0, 0, 0, 0, 7]" "[0, 0, 0, 0]" 1 g5 "[[3]]" 9]
    pipeline_g5_3
  by simp

text \<open>
  C5, as stated, fails: the seed does not fix the order in which \<open>range\<close> visits the
  neighbours of a node, and that order decides which candidate a draw selects. On \<open>g5\<close>,
  from node 1 and with the same draws, visiting neighbour 2 first ends in a tour of cost
  24, visiting neighbour 3 first in a tour of cost 17.
\<close>

theorem C5_counterexample:
  "fst (pipeline 1 5 g5 [0, 0, 0, 0] [[2]] 9) = Some ([1, 2, 3, 4, 5], 24) \<and>
   fst (pipeline 1 5 g5 [0, 0, 0, 0] [[3]] 9) = Some ([1, 3, 2, 5, 4], 17)"
  using pipeline_g5_2 pipeline_g5_3 by simp

end
